theory Spec2Isabelle
  imports Complex_Main
begin

section \<open>The benchmarking harness of \<^verbatim>\<open>demo/int8_resnet50_demo_throughput.py\<close>\<close>

text \<open>
  The harness partitions the CPU cores into arenas, starts one worker per arena, lets the
  workers run for a benchmark window and reduces their (count, elapsed time) pairs to a
  latency and a throughput figure. Python's unbounded integers are \<^typ>\<open>int\<close>; Python's
  floats (timestamps, durations, the two figures) are idealised as \<^typ>\<open>real\<close>, so the
  arithmetic below is exact where the program rounds. The inference engine, the image
  loading and the report are outside the model.
\<close>

subsection \<open>Exceptions and outcomes\<close>

text \<open>
  The exceptions the harness can raise by itself. An outcome records the source line of
  the statement that raised, so that two raises of the same exception class at different
  statements are different outcomes. \<open>Hang\<close> is a call that never returns (a barrier that
  is never released, a full queue nobody drains).
\<close>

datatype exn = ZeroDivisionError | TypeError | AssertionError | ValueError

datatype 'a outcome = Return 'a | Raise exn nat | Hang

subsection \<open>Arena partitioning (\<^verbatim>\<open>run_within_arenas\<close>, lines 80-81; \<^verbatim>\<open>arena_wrp\<close>, lines 49-58)\<close>

text \<open>
  \<^verbatim>\<open>if arena_num is None: arena_num = (multiprocessing.cpu_count() - 1) // arena_size + 1\<close>.
  Python's \<open>//\<close> on integers is floor division, which is \<open>div\<close> on \<^typ>\<open>int\<close>; it raises
  \<open>ZeroDivisionError\<close> for a zero divisor. The number of cores is a parameter.
\<close>

definition derive_arena_num :: "int \<Rightarrow> int \<Rightarrow> int option \<Rightarrow> exn + int" where
  "derive_arena_num cpu_count arena_size arena_num =
     (case arena_num of
        None \<Rightarrow> if arena_size = 0 then Inl ZeroDivisionError
                else Inr ((cpu_count - 1) div arena_size + 1)
      | Some n \<Rightarrow> Inr n)"

text \<open>
  \<^verbatim>\<open>idx_start = arena_size * arena_idx\<close>,
  \<^verbatim>\<open>arena_size = min(multiprocessing.cpu_count() - idx_start, arena_size)\<close>,
  \<^verbatim>\<open>idx_end = idx_start + arena_size\<close>.
\<close>

definition idx_start :: "int \<Rightarrow> int \<Rightarrow> int" where
  "idx_start arena_size arena_idx = arena_size * arena_idx"

definition clamped_size :: "int \<Rightarrow> int \<Rightarrow> int \<Rightarrow> int" where
  "clamped_size cpu_count arena_size arena_idx =
     min (cpu_count - idx_start arena_size arena_idx) arena_size"

definition idx_end :: "int \<Rightarrow> int \<Rightarrow> int \<Rightarrow> int" where
  "idx_end cpu_count arena_size arena_idx =
     idx_start arena_size arena_idx + clamped_size cpu_count arena_size arena_idx"

text \<open>
  The affinity a worker process gives itself: \<open>OMP_NUM_THREADS\<close> is the clamped size and
  \<open>OMP_PLACES\<close> lists the cores \<^verbatim>\<open>range(idx_start, idx_end)\<close>, one place per core (the
  rendering of the list as a string of braces is left out).
\<close>

record affinity =
  omp_num_threads :: int
  omp_places :: "int list"

definition arena_affinity :: "int \<Rightarrow> int \<Rightarrow> int \<Rightarrow> affinity" where
  "arena_affinity cpu_count arena_size arena_idx =
     \<lparr>omp_num_threads = clamped_size cpu_count arena_size arena_idx,
      omp_places = [idx_start arena_size arena_idx .. idx_end cpu_count arena_size arena_idx - 1]\<rparr>"

subsection \<open>Workers as the driver sees them\<close>

text \<open>
  Between starting its workers and joining them the driver only waits. What it finds
  afterwards depends on how each worker ended, which the scheduler, the clock and the
  workload decide; the model takes it as an input, one \<open>worker\<close> per arena index:
  \<^item> \<open>InitRaises\<close>: the worker raised before its timed loop (in \<open>init_f\<close>,
    \<open>initialize_for_thread\<close> or \<open>get_img\<close>);
  \<^item> \<open>CallRaises k\<close>: its \<open>k\<close>-th call (\<open>action_f\<close>, \<open>runner.infer\<close>) raised; in the
    queue variant it had taken \<open>k\<close> items from the queue by then;
  \<^item> \<open>Completes tot_count tot_duration\<close>: it left its loop and stored its results;
    \<open>tot_count\<close> and \<open>tot_duration\<close> are the values the driver reads back from the two
    slots (the process variant keeps the counts in an array of C integers).
  A call that neither returns nor raises is outside the model. A process ended by an
  uncaught exception has exit code 1; a thread has no exit code.
\<close>

datatype worker = InitRaises | CallRaises nat | Completes int real

fun exitcode :: "worker \<Rightarrow> int" where
  "exitcode (Completes tot_count tot_duration) = 0"
| "exitcode InitRaises = 1"
| "exitcode (CallRaises k) = 1"

fun reaches_loop :: "worker \<Rightarrow> bool" where
  "reaches_loop InitRaises = False"
| "reaches_loop (CallRaises k) = True"
| "reaches_loop (Completes tot_count tot_duration) = True"

fun completes :: "worker \<Rightarrow> bool" where
  "completes (Completes tot_count tot_duration) = True"
| "completes InitRaises = False"
| "completes (CallRaises k) = False"

fun taken :: "worker \<Rightarrow> nat" where
  "taken (CallRaises k) = k"
| "taken InitRaises = 0"
| "taken (Completes tot_count tot_duration) = 0"

text \<open>
  \<^verbatim>\<open>res_count[arena_idx] = tot_count\<close>, \<^verbatim>\<open>res_time[arena_idx] = tot_duration\<close>: the last two
  statements of every worker routine (lines 74-75, 133-134, 197-198). A worker that
  raised never reaches them.
\<close>

fun write_result :: "nat \<Rightarrow> worker \<Rightarrow> int list \<times> real list \<Rightarrow> int list \<times> real list" where
  "write_result arena_idx (Completes tot_count tot_duration) (res_count, res_time) =
     (res_count[arena_idx := tot_count], res_time[arena_idx := tot_duration])"
| "write_result arena_idx InitRaises (res_count, res_time) = (res_count, res_time)"
| "write_result arena_idx (CallRaises k) (res_count, res_time) = (res_count, res_time)"

text \<open>
  The result slots once every worker has ended: \<^verbatim>\<open>[0] * arena_num\<close> and
  \<^verbatim>\<open>[0.0] * arena_num\<close>, then one write per worker. Every worker writes its own slot
  only, so the order of the writes does not matter; the model takes the index order.
\<close>

definition join_workers :: "nat \<Rightarrow> (nat \<Rightarrow> worker) \<Rightarrow> int list \<times> real list" where
  "join_workers n workers =
     fold (\<lambda>arena_idx. write_result arena_idx (workers arena_idx)) [0..<n]
       (replicate n 0, replicate n 0)"

subsection \<open>Aggregation (lines 105-113, 164-172 and 233-241: three copies of one text)\<close>

text \<open>
  \<^verbatim>\<open>for count, duration in zip(res_count, res_time): total_count += count; total_duration += duration\<close>
\<close>

definition accumulate :: "int list \<Rightarrow> real list \<Rightarrow> int \<times> real" where
  "accumulate res_count res_time =
     fold (\<lambda>(count, duration) (total_count, total_duration).
             (total_count + count, total_duration + duration))
       (zip res_count res_time) (0, 0)"

text \<open>
  \<^verbatim>\<open>total_duration /= total_count\<close> divides a float by an integer and raises
  \<open>ZeroDivisionError\<close> when the integer is zero; \<open>line\<close> is the line of this division in
  the copy at hand (110, 169 or 238). Then \<^verbatim>\<open>latency = total_duration * 1000\<close> and
  \<^verbatim>\<open>throughput = benchmark_time_sec * 1000 / total_count\<close>.
\<close>

definition aggregate :: "nat \<Rightarrow> real \<Rightarrow> int list \<Rightarrow> real list \<Rightarrow> (real \<times> real) outcome" where
  "aggregate line benchmark_time_sec res_count res_time =
     (case accumulate res_count res_time of
        (total_count, total_duration) \<Rightarrow>
          if total_count = 0 then Raise ZeroDivisionError line
          else
            let total_duration = total_duration / real_of_int total_count;
                latency = total_duration * 1000;
                throughput = benchmark_time_sec * 1000 / real_of_int total_count
            in Return (latency, throughput))"

text \<open>
  \<^verbatim>\<open>time.sleep(chillout_time_sec)\<close> before \<^verbatim>\<open>return latency, throughput\<close>: \<open>time.sleep\<close>
  raises \<open>ValueError\<close> for a negative length.
\<close>

definition chillout :: "nat \<Rightarrow> real \<Rightarrow> (real \<times> real) outcome \<Rightarrow> (real \<times> real) outcome" where
  "chillout line chillout_time_sec result =
     (case result of
        Return figures \<Rightarrow>
          if chillout_time_sec < 0 then Raise ValueError line else Return figures
      | Raise e l \<Rightarrow> Raise e l
      | Hang \<Rightarrow> Hang)"

subsection \<open>The three drivers\<close>

text \<open>
  Every driver returns the number of workers it started together with its outcome.
  \<^verbatim>\<open>range(arena_num)\<close> is empty for a negative \<open>arena_num\<close>, and so are \<^verbatim>\<open>[0] * arena_num\<close>
  and \<^verbatim>\<open>[0.0] * arena_num\<close>: the driver starts \<open>nat arena_num\<close> workers.

  \<^verbatim>\<open>run_within_arenas\<close> (lines 78-117), with worker processes. The barrier has
  \<open>arena_num + 1\<close> parties; the driver's \<^verbatim>\<open>init_barrier.wait()\<close> (line 96) returns when
  the number of callers of \<open>wait\<close> has reached the number of parties, which are the driver
  and the workers that get past \<open>init_f\<close>. Then \<^verbatim>\<open>time.sleep(benchmark_time_sec)\<close>, the
  stop flag, and for every process \<^verbatim>\<open>p.join(); assert p.exitcode == 0\<close>.
\<close>

definition barrier_arrivals :: "nat \<Rightarrow> (nat \<Rightarrow> worker) \<Rightarrow> int" where
  "barrier_arrivals started workers =
     1 + int (length (filter (\<lambda>arena_idx. reaches_loop (workers arena_idx)) [0..<started]))"

definition run_within_arenas ::
  "int \<Rightarrow> int \<Rightarrow> int option \<Rightarrow> real \<Rightarrow> real \<Rightarrow> (nat \<Rightarrow> worker) \<Rightarrow> nat \<times> (real \<times> real) outcome" where
  "run_within_arenas cpu_count arena_size arena_num benchmark_time_sec chillout_time_sec workers =
     (case derive_arena_num cpu_count arena_size arena_num of
        Inl e \<Rightarrow> (0, Raise e 81)
      | Inr arena_num \<Rightarrow>
          let started = nat arena_num in
          (started,
           if barrier_arrivals started workers \<noteq> arena_num + 1 then Hang
           else if benchmark_time_sec < 0 then Raise ValueError 97
           else if list_ex (\<lambda>arena_idx. exitcode (workers arena_idx) \<noteq> 0) [0..<started]
             then Raise AssertionError 102
           else
             case join_workers started workers of
               (res_count, res_time) \<Rightarrow>
                 chillout 116 chillout_time_sec
                   (aggregate 110 benchmark_time_sec res_count res_time)))"

text \<open>
  \<^verbatim>\<open>run_with_async_runner\<close> (lines 137-176), with worker threads and no barrier:
  \<^verbatim>\<open>[0] * arena_num\<close> (line 148) raises \<open>TypeError\<close> for \<open>None\<close>; the threads are started,
  the driver sleeps, clears the flag and joins (joining a thread that raised returns as for
  any other); the slots are aggregated. \<open>model_path\<close>, \<open>img_path\<close> and \<open>arena_size\<close> (which
  is only printed) are left out.
\<close>

definition run_with_async_runner ::
  "int option \<Rightarrow> real \<Rightarrow> real \<Rightarrow> (nat \<Rightarrow> worker) \<Rightarrow> nat \<times> (real \<times> real) outcome" where
  "run_with_async_runner arena_num benchmark_time_sec chillout_time_sec workers =
     (case arena_num of
        None \<Rightarrow> (0, Raise TypeError 148)
      | Some arena_num \<Rightarrow>
          let started = nat arena_num in
          (started,
           if benchmark_time_sec < 0 then Raise ValueError 158
           else
             case join_workers started workers of
               (res_count, res_time) \<Rightarrow>
                 chillout 175 chillout_time_sec
                   (aggregate 169 benchmark_time_sec res_count res_time)))"

text \<open>
  \<^verbatim>\<open>run_like_mlperf\<close> (lines 201-245), with worker threads fed from a queue:
  \<^verbatim>\<open>Queue(maxsize=arena_num * 4)\<close> (line 209) raises \<open>TypeError\<close> for \<open>None\<close>, before the
  result lists of lines 213-214 are built. A queue with \<open>maxsize \<le> 0\<close> is unbounded. The
  driver puts tickets while the window is open (\<open>puts\<close> of them, as the clock decides) and
  then \<open>arena_num\<close> sentinels; a \<open>put\<close> on a full queue waits for a \<open>get\<close>. A worker that
  completes has taken a sentinel, so everything put before that sentinel has been taken
  and fewer than \<open>arena_num\<close> items follow it: with one such worker no \<open>put\<close> waits forever.
  When every worker raised, the driver is stuck as soon as it has put \<open>maxsize\<close> items
  more than the workers took.
\<close>

definition producer_blocks :: "int \<Rightarrow> nat \<Rightarrow> nat \<Rightarrow> (nat \<Rightarrow> worker) \<Rightarrow> bool" where
  "producer_blocks maxsize started puts workers \<longleftrightarrow>
     0 < maxsize \<and>
     \<not> list_ex (\<lambda>arena_idx. completes (workers arena_idx)) [0..<started] \<and>
     maxsize + int (sum_list (map (\<lambda>arena_idx. taken (workers arena_idx)) [0..<started]))
       < int (puts + started)"

definition run_like_mlperf ::
  "int option \<Rightarrow> real \<Rightarrow> real \<Rightarrow> nat \<Rightarrow> (nat \<Rightarrow> worker) \<Rightarrow> nat \<times> (real \<times> real) outcome" where
  "run_like_mlperf arena_num benchmark_time_sec chillout_time_sec puts workers =
     (case arena_num of
        None \<Rightarrow> (0, Raise TypeError 209)
      | Some arena_num \<Rightarrow>
          let started = nat arena_num in
          (started,
           if producer_blocks (arena_num * 4) started puts workers then Hang
           else
             case join_workers started workers of
               (res_count, res_time) \<Rightarrow>
                 chillout 244 chillout_time_sec
                   (aggregate 238 benchmark_time_sec res_count res_time)))"

text \<open>
  What a worker's two result slots hold once it has ended: its writes, or the initial
  \<open>0\<close> and \<open>0.0\<close> when it raised.
\<close>

fun slot_count :: "worker \<Rightarrow> int" where
  "slot_count (Completes tot_count tot_duration) = tot_count"
| "slot_count InitRaises = 0"
| "slot_count (CallRaises k) = 0"

fun slot_time :: "worker \<Rightarrow> real" where
  "slot_time (Completes tot_count tot_duration) = tot_duration"
| "slot_time InitRaises = 0"
| "slot_time (CallRaises k) = 0"

text \<open>Workers that all complete, reporting the counts \<open>cs\<close> and the times \<open>ts\<close>.\<close>

definition reports :: "int list \<Rightarrow> real list \<Rightarrow> nat \<Rightarrow> worker" where
  "reports cs ts arena_idx = Completes (cs ! arena_idx) (ts ! arena_idx)"

text \<open>
  The two figures in the words of the specification: \<open>latency_ms = (total_elapsed /
  total_calls) * 1000\<close> and \<open>throughput_ms_per_call = (window_duration_sec * 1000) /
  total_calls\<close>, to be compared with what \<open>aggregate\<close> computes.
\<close>

definition latency_ms :: "int list \<Rightarrow> real list \<Rightarrow> real" where
  "latency_ms cs ts = (sum_list ts / real_of_int (sum_list cs)) * 1000"

definition throughput_ms_per_call :: "real \<Rightarrow> int list \<Rightarrow> real" where
  "throughput_ms_per_call window_duration_sec cs =
     (window_duration_sec * 1000) / real_of_int (sum_list cs)"

subsection \<open>The worker routine of the queue variant (\<^verbatim>\<open>mlperf_routine\<close>, lines 179-198)\<close>

text \<open>
  The driver puts \<open>1\<close> for a unit of work and \<open>None\<close> to end a worker.
\<close>

datatype qitem = Ticket | Sentinel

text \<open>
  The routine meets the world in three calls: \<open>time.time()\<close>, \<open>tasks_queue.get()\<close>, which
  waits until there is an item, and \<open>runner.infer\<close>. A delivery is what one turn of the
  loop meets: the time \<open>get\<close> waited, the item it returned, and the time \<open>infer\<close> took
  on it (unused for a sentinel). The loop carries the clock and \<open>tot_count\<close>; with no
  delivery left \<open>get\<close> never returns, which is \<open>None\<close>. \<open>task_done\<close> has no effect on the
  routine.
\<close>

type_synonym delivery = "real \<times> qitem \<times> real"

fun mlperf_loop :: "real \<Rightarrow> int \<Rightarrow> delivery list \<Rightarrow> (real \<times> int) option" where
  "mlperf_loop now tot_count [] = None"
| "mlperf_loop now tot_count ((waited, Sentinel, infer_time) # rest) =
     Some (now + waited, tot_count)"
| "mlperf_loop now tot_count ((waited, Ticket, infer_time) # rest) =
     mlperf_loop (now + waited + infer_time) (tot_count + 1) rest"

text \<open>
  The routine is entered at time \<open>entry\<close> and prepares its input (\<open>get_img\<close>, lines
  180-181) for the time \<open>prepare\<close>; then \<^verbatim>\<open>start_timestamp = time.time()\<close> (line 183), the
  loop, and \<^verbatim>\<open>tot_duration = time.time() - start_timestamp\<close> (line 195). The result is what
  it writes to its slots: \<open>(tot_count, tot_duration)\<close>.
\<close>

definition mlperf_routine :: "real \<Rightarrow> real \<Rightarrow> delivery list \<Rightarrow> (int \<times> real) option" where
  "mlperf_routine entry prepare deliveries =
     (let start_timestamp = entry + prepare in
      case mlperf_loop start_timestamp 0 deliveries of
        None \<Rightarrow> None
      | Some (now, tot_count) \<Rightarrow> Some (tot_count, now - start_timestamp))"

text \<open>
  The interval in the words of the specification: from the worker's own first dequeue (the
  moment its first \<open>get\<close> returns) to its last completed call. \<open>call_ends\<close> lists the
  moments at which the calls before the sentinel complete.
\<close>

fun call_ends :: "real \<Rightarrow> delivery list \<Rightarrow> real list" where
  "call_ends now [] = []"
| "call_ends now ((waited, Sentinel, infer_time) # rest) = []"
| "call_ends now ((waited, Ticket, infer_time) # rest) =
     (now + waited + infer_time) # call_ends (now + waited + infer_time) rest"

definition first_dequeue_to_last_call :: "real \<Rightarrow> delivery list \<Rightarrow> real" where
  "first_dequeue_to_last_call start deliveries =
     (case deliveries of
        [] \<Rightarrow> 0
      | (waited, qitem, infer_time) # rest \<Rightarrow>
          (case call_ends start deliveries of
             [] \<Rightarrow> 0
           | e # es \<Rightarrow> last (e # es) - (start + waited)))"

subsection \<open>The queue protocol of \<^verbatim>\<open>run_like_mlperf\<close> (lines 185-193 and 223-228)\<close>

text \<open>
  The driver and its worker threads as a transition system over the shared queue; which
  of them moves next is the scheduler's choice. The driver is in its producer loop
  (\<^verbatim>\<open>while time.time() - start_time < benchmark_time_sec: tasks.put(1)\<close>) or, once the
  window has closed, in \<^verbatim>\<open>for _ in range(arena_num): tasks.put(None)\<close> with \<open>k\<close> sentinels
  still to put. A worker is at \<^verbatim>\<open>tasks_queue.get()\<close>, inside \<^verbatim>\<open>runner.infer\<close>, or has
  left its loop by the \<open>break\<close> of line 190. Calls of \<open>infer\<close> return.
\<close>

datatype producer = Producing | Closing nat

datatype consumer = Getting | Inferring | Exited

record qstate =
  queue :: "qitem list"
  driver :: producer
  threads :: "consumer list"

text \<open>
  \<^verbatim>\<open>Queue(maxsize=arena_num * 4)\<close>: \<open>put\<close> waits while the queue holds \<open>maxsize\<close> items; a
  \<open>maxsize\<close> of zero is no bound.
\<close>

definition has_room :: "nat \<Rightarrow> qitem list \<Rightarrow> bool" where
  "has_room arena_num q \<longleftrightarrow> arena_num * 4 = 0 \<or> length q < arena_num * 4"

definition q_init :: "nat \<Rightarrow> qstate" where
  "q_init arena_num = \<lparr>queue = [], driver = Producing, threads = replicate arena_num Getting\<rparr>"

inductive qstep :: "nat \<Rightarrow> qstate \<Rightarrow> qstate \<Rightarrow> bool" for arena_num :: nat where
  put_ticket:
    "driver s = Producing \<Longrightarrow> has_room arena_num (queue s) \<Longrightarrow>
     qstep arena_num s (s\<lparr>queue := queue s @ [Ticket]\<rparr>)"
| window_closes:
    "driver s = Producing \<Longrightarrow>
     qstep arena_num s (s\<lparr>driver := Closing arena_num\<rparr>)"
| put_sentinel:
    "driver s = Closing (Suc k) \<Longrightarrow> has_room arena_num (queue s) \<Longrightarrow>
     qstep arena_num s (s\<lparr>queue := queue s @ [Sentinel], driver := Closing k\<rparr>)"
| get_ticket:
    "i < length (threads s) \<Longrightarrow> threads s ! i = Getting \<Longrightarrow> queue s = Ticket # q \<Longrightarrow>
     qstep arena_num s (s\<lparr>queue := q, threads := (threads s)[i := Inferring]\<rparr>)"
| get_sentinel:
    "i < length (threads s) \<Longrightarrow> threads s ! i = Getting \<Longrightarrow> queue s = Sentinel # q \<Longrightarrow>
     qstep arena_num s (s\<lparr>queue := q, threads := (threads s)[i := Exited]\<rparr>)"
| infer_done:
    "i < length (threads s) \<Longrightarrow> threads s ! i = Inferring \<Longrightarrow>
     qstep arena_num s (s\<lparr>threads := (threads s)[i := Getting]\<rparr>)"

inductive q_reachable :: "nat \<Rightarrow> qstate \<Rightarrow> bool" for arena_num :: nat where
  q_start: "q_reachable arena_num (q_init arena_num)"
| q_next: "q_reachable arena_num s \<Longrightarrow> qstep arena_num s t \<Longrightarrow> q_reachable arena_num t"

text \<open>A run: every state is a step from the one before.\<close>

fun q_run :: "nat \<Rightarrow> qstate \<Rightarrow> qstate list \<Rightarrow> bool" where
  "q_run arena_num s [] = True"
| "q_run arena_num s (t # ts) = (qstep arena_num s t \<and> q_run arena_num t ts)"

text \<open>
  What is left to do once the window has closed: two steps for every ticket in the queue
  (its \<open>get\<close> and the end of its call), one for every sentinel in the queue and for every
  call under way, two for every sentinel still to put.
\<close>

fun to_put :: "producer \<Rightarrow> nat" where
  "to_put Producing = 0"
| "to_put (Closing k) = k"

definition remaining_work :: "qstate \<Rightarrow> nat" where
  "remaining_work s =
     2 * count_list (queue s) Ticket + count_list (queue s) Sentinel +
     count_list (threads s) Inferring + 2 * to_put (driver s)"

text \<open>
  The steps as an executable check of one given step.
\<close>

code_pred qstep .

text \<open>
  What the protocol keeps true: while the driver produces, no sentinel is in the queue and
  no worker has left its loop; afterwards the sentinels in the queue, the workers that
  have left and the sentinels still to put are as many as the workers.
\<close>

definition q_inv :: "nat \<Rightarrow> qstate \<Rightarrow> bool" where
  "q_inv arena_num s \<longleftrightarrow>
     length (threads s) = arena_num \<and>
     (case driver s of
        Producing \<Rightarrow> count_list (queue s) Sentinel = 0 \<and> count_list (threads s) Exited = 0
      | Closing k \<Rightarrow> count_list (queue s) Sentinel + count_list (threads s) Exited + k = arena_num)"

subsection \<open>The start of a run: with the barrier (lines 60-64, 86-96) and without it\<close>

text \<open>
  The three drivers start their workers in the same way, and only one of them uses a
  barrier: \<^verbatim>\<open>run_within_arenas\<close> creates \<^verbatim>\<open>multiprocessing.Barrier(arena_num + 1)\<close> (line
  86) and waits on it after starting the processes (line 96), and \<^verbatim>\<open>arena_wrp\<close> waits on
  it between \<open>init_f\<close> and its timestamp (lines 60-64). \<^verbatim>\<open>run_with_async_runner\<close> and
  \<^verbatim>\<open>run_like_mlperf\<close> create no barrier, and their routines take the timestamp as soon as
  their own preparation is done (lines 121-126, 180-183).
\<close>

datatype variant = Arenas | AsyncRunner | LikeMlperf

fun has_barrier :: "variant \<Rightarrow> bool" where
  "has_barrier Arenas = True"
| "has_barrier AsyncRunner = False"
| "has_barrier LikeMlperf = False"

text \<open>
  A worker has not been started, is initialising, is inside \<open>wait\<close>, has returned from
  \<open>wait\<close> at the time \<open>Released r\<close>, or has taken its start timestamp: \<open>Timed rel ts\<close> is a
  timestamp \<open>ts\<close> after a release at \<open>rel\<close>, or with no release before it. The driver has
  started \<open>k\<close> workers, is inside \<open>wait\<close>, or has gone on to its benchmark window. The
  clock is a logical one that every step advances; \<open>arrivals\<close> counts the calls of \<open>wait\<close>.
\<close>

datatype wstart = NotStarted | Initializing | AtBarrier | Released nat | Timed "nat option" nat

datatype dstart = Spawning nat | DriverAtBarrier | DriverTiming "nat option"

record startup =
  clock :: nat
  driver_at :: dstart
  procs :: "wstart list"
  arrivals :: nat

definition st_init :: "nat \<Rightarrow> startup" where
  "st_init arena_num =
     \<lparr>clock = 0, driver_at = Spawning 0, procs = replicate arena_num NotStarted, arrivals = 0\<rparr>"

text \<open>
  A caller of \<open>wait\<close> returns once as many callers have arrived as the barrier has parties,
  \<open>arena_num + 1\<close>.
\<close>

inductive st_step :: "variant \<Rightarrow> nat \<Rightarrow> startup \<Rightarrow> startup \<Rightarrow> bool"
  for v :: variant and arena_num :: nat where
  spawn:
    "driver_at s = Spawning k \<Longrightarrow> k < arena_num \<Longrightarrow>
     st_step v arena_num s
       (s\<lparr>clock := Suc (clock s), driver_at := Spawning (Suc k),
          procs := (procs s)[k := Initializing]\<rparr>)"
| driver_wait:
    "has_barrier v \<Longrightarrow> driver_at s = Spawning arena_num \<Longrightarrow>
     st_step v arena_num s
       (s\<lparr>clock := Suc (clock s), driver_at := DriverAtBarrier, arrivals := Suc (arrivals s)\<rparr>)"
| driver_release:
    "driver_at s = DriverAtBarrier \<Longrightarrow> arrivals s = arena_num + 1 \<Longrightarrow>
     st_step v arena_num s
       (s\<lparr>clock := Suc (clock s), driver_at := DriverTiming (Some (clock s))\<rparr>)"
| driver_no_barrier:
    "\<not> has_barrier v \<Longrightarrow> driver_at s = Spawning arena_num \<Longrightarrow>
     st_step v arena_num s
       (s\<lparr>clock := Suc (clock s), driver_at := DriverTiming None\<rparr>)"
| worker_wait:
    "has_barrier v \<Longrightarrow> i < length (procs s) \<Longrightarrow> procs s ! i = Initializing \<Longrightarrow>
     st_step v arena_num s
       (s\<lparr>clock := Suc (clock s), procs := (procs s)[i := AtBarrier],
          arrivals := Suc (arrivals s)\<rparr>)"
| worker_release:
    "i < length (procs s) \<Longrightarrow> procs s ! i = AtBarrier \<Longrightarrow> arrivals s = arena_num + 1 \<Longrightarrow>
     st_step v arena_num s
       (s\<lparr>clock := Suc (clock s), procs := (procs s)[i := Released (clock s)]\<rparr>)"
| worker_stamp:
    "i < length (procs s) \<Longrightarrow> procs s ! i = Released r \<Longrightarrow>
     st_step v arena_num s
       (s\<lparr>clock := Suc (clock s), procs := (procs s)[i := Timed (Some r) (clock s)]\<rparr>)"
| worker_stamp_no_barrier:
    "\<not> has_barrier v \<Longrightarrow> i < length (procs s) \<Longrightarrow> procs s ! i = Initializing \<Longrightarrow>
     st_step v arena_num s
       (s\<lparr>clock := Suc (clock s), procs := (procs s)[i := Timed None (clock s)]\<rparr>)"

code_pred st_step .

inductive st_reachable :: "variant \<Rightarrow> nat \<Rightarrow> startup \<Rightarrow> bool"
  for v :: variant and arena_num :: nat where
  st_start: "st_reachable v arena_num (st_init arena_num)"
| st_next: "st_reachable v arena_num s \<Longrightarrow> st_step v arena_num s t \<Longrightarrow> st_reachable v arena_num t"

text \<open>
  The barrier property of a state. A participant has arrived when it has called \<open>wait\<close>;
  a worker is timed when it has taken its start timestamp.
\<close>

fun arrived :: "wstart \<Rightarrow> bool" where
  "arrived NotStarted = False"
| "arrived Initializing = False"
| "arrived AtBarrier = True"
| "arrived (Released r) = True"
| "arrived (Timed None ts) = False"
| "arrived (Timed (Some r) ts) = True"

fun driver_arrived :: "dstart \<Rightarrow> bool" where
  "driver_arrived (Spawning k) = False"
| "driver_arrived DriverAtBarrier = True"
| "driver_arrived (DriverTiming None) = False"
| "driver_arrived (DriverTiming (Some r)) = True"

fun timed :: "wstart \<Rightarrow> bool" where
  "timed (Timed rel ts) = True"
| "timed NotStarted = False"
| "timed Initializing = False"
| "timed AtBarrier = False"
| "timed (Released r) = False"

fun stamped_after_release :: "wstart \<Rightarrow> bool" where
  "stamped_after_release (Timed None ts) = False"
| "stamped_after_release (Timed (Some r) ts) = (r < ts)"
| "stamped_after_release NotStarted = True"
| "stamped_after_release Initializing = True"
| "stamped_after_release AtBarrier = True"
| "stamped_after_release (Released r) = True"

text \<open>
  Every call of \<open>wait\<close> is the one call of a participant that has arrived, there are at most
  \<open>arena_num + 1\<close> of them, every timestamp lies after its worker's release, and when some
  worker is timed, all \<open>arena_num + 1\<close> participants have arrived.
\<close>

definition rendezvous_before_timing :: "nat \<Rightarrow> startup \<Rightarrow> bool" where
  "rendezvous_before_timing arena_num s \<longleftrightarrow>
     arrivals s = length (filter arrived (procs s)) + (if driver_arrived (driver_at s) then 1 else 0) \<and>
     arrivals s \<le> arena_num + 1 \<and>
     list_all stamped_after_release (procs s) \<and>
     (if list_ex timed (procs s)
      then arrivals s = arena_num + 1 \<and> list_all arrived (procs s) \<and> driver_arrived (driver_at s)
      else True)"

text \<open>What the start with the barrier keeps true from step to step.\<close>

fun past_barrier :: "wstart \<Rightarrow> bool" where
  "past_barrier (Released r) = True"
| "past_barrier (Timed rel ts) = True"
| "past_barrier NotStarted = False"
| "past_barrier Initializing = False"
| "past_barrier AtBarrier = False"

fun well_timed :: "nat \<Rightarrow> wstart \<Rightarrow> bool" where
  "well_timed now (Released r) = (r < now)"
| "well_timed now (Timed None ts) = False"
| "well_timed now (Timed (Some r) ts) = (r < ts)"
| "well_timed now NotStarted = True"
| "well_timed now Initializing = True"
| "well_timed now AtBarrier = True"

fun unstarted :: "wstart \<Rightarrow> bool" where
  "unstarted NotStarted = True"
| "unstarted Initializing = False"
| "unstarted AtBarrier = False"
| "unstarted (Released r) = False"
| "unstarted (Timed rel ts) = False"

fun spawned_upto :: "nat \<Rightarrow> wstart list \<Rightarrow> dstart \<Rightarrow> bool" where
  "spawned_upto arena_num ps (Spawning k) = (k \<le> arena_num \<and> list_all unstarted (drop k ps))"
| "spawned_upto arena_num ps DriverAtBarrier = True"
| "spawned_upto arena_num ps (DriverTiming rel) = True"

definition st_inv :: "nat \<Rightarrow> startup \<Rightarrow> bool" where
  "st_inv arena_num s \<longleftrightarrow>
     length (procs s) = arena_num \<and>
     arrivals s = length (filter arrived (procs s)) + (if driver_arrived (driver_at s) then 1 else 0) \<and>
     (\<forall>w \<in> set (procs s). well_timed (clock s) w) \<and>
     ((\<exists>w \<in> set (procs s). past_barrier w) \<longrightarrow> arrivals s = arena_num + 1) \<and>
     driver_at s \<noteq> DriverTiming None \<and>
     spawned_upto arena_num (procs s) (driver_at s)"

section \<open>Properties of the arena partitioning\<close>

lemma derived_count_bounds:
  fixes cpu_count arena_size :: int
  assumes "1 \<le> cpu_count" and "1 \<le> arena_size"
  shows "arena_size * ((cpu_count - 1) div arena_size) \<le> cpu_count - 1"
    and "cpu_count - 1 < arena_size * ((cpu_count - 1) div arena_size + 1)"
proof -
  let ?x = "cpu_count - 1"
  from assms(2) have pos: "0 < arena_size" by simp
  have eq: "arena_size * (?x div arena_size) = ?x - ?x mod arena_size"
    by (simp add: minus_mod_eq_mult_div)
  from pos have lo: "0 \<le> ?x mod arena_size" and hi: "?x mod arena_size < arena_size"
    by simp_all
  from eq lo show "arena_size * (?x div arena_size) \<le> ?x"
    by linarith
  have "arena_size * (?x div arena_size + 1) = arena_size * (?x div arena_size) + arena_size"
    by (simp add: distrib_left)
  with eq hi show "?x < arena_size * (?x div arena_size + 1)"
    by linarith
qed

text \<open>
  Claim C2. For at least one core and an arena size of at least one, the arena count
  derived when \<open>arena_num\<close> is \<open>None\<close>, \<open>(cpu_count - 1) // arena_size + 1\<close>, is the
  ceiling of \<open>cpu_count / arena_size\<close>.
\<close>

theorem derived_arena_num_is_ceiling:
  fixes cpu_count arena_size :: int
  assumes "1 \<le> cpu_count" and "1 \<le> arena_size"
  shows "derive_arena_num cpu_count arena_size None =
         Inr \<lceil>real_of_int cpu_count / real_of_int arena_size\<rceil>"
proof -
  let ?q = "(cpu_count - 1) div arena_size"
  from assms(2) have pos: "0 < real_of_int arena_size" by simp
  from derived_count_bounds(1) [OF assms] have "arena_size * ?q < cpu_count" by simp
  then have "real_of_int (arena_size * ?q) < real_of_int cpu_count"
    by (simp only: of_int_less_iff)
  then have lo: "real_of_int (?q + 1) - 1 < real_of_int cpu_count / real_of_int arena_size"
    using pos by (simp add: pos_less_divide_eq mult.commute)
  from derived_count_bounds(2) [OF assms] have "cpu_count \<le> arena_size * (?q + 1)" by simp
  then have "real_of_int cpu_count \<le> real_of_int (arena_size * (?q + 1))"
    by (simp only: of_int_le_iff)
  then have hi: "real_of_int cpu_count / real_of_int arena_size \<le> real_of_int (?q + 1)"
    using pos by (simp add: pos_divide_le_eq mult.commute)
  from lo hi have "\<lceil>real_of_int cpu_count / real_of_int arena_size\<rceil> = ?q + 1"
    by (rule ceiling_unique)
  with assms(2) show ?thesis by (simp add: derive_arena_num_def)
qed

text \<open>Ten cores in arenas of four: three arenas.\<close>

theorem derived_arena_num_is_ceiling_witness:
  "derive_arena_num 10 4 None = Inr \<lceil>real_of_int 10 / real_of_int 4\<rceil> \<and>
   derive_arena_num 10 4 None = Inr 3"
  using derived_arena_num_is_ceiling [of 10 4] by (simp add: derive_arena_num_def)

lemma clamped_size_le: "clamped_size cpu_count arena_size i \<le> arena_size"
  by (simp add: clamped_size_def)

lemma full_arena:
  fixes cpu_count arena_size :: int
  assumes "1 \<le> cpu_count" and "1 \<le> arena_size"
    and "0 \<le> i" and "i < (cpu_count - 1) div arena_size"
  shows "clamped_size cpu_count arena_size i = arena_size"
proof -
  from assms(2,4) have "arena_size * (i + 1) \<le> arena_size * ((cpu_count - 1) div arena_size)"
    by (intro mult_left_mono) simp_all
  also from derived_count_bounds(1) [OF assms(1,2)] have "\<dots> \<le> cpu_count - 1" .
  finally have "arena_size * i + arena_size \<le> cpu_count - 1"
    by (simp add: distrib_left)
  then show ?thesis
    by (simp add: clamped_size_def idx_start_def)
qed

lemma last_arena:
  fixes cpu_count arena_size :: int
  assumes "1 \<le> cpu_count" and "1 \<le> arena_size"
  shows "clamped_size cpu_count arena_size ((cpu_count - 1) div arena_size) =
         cpu_count - arena_size * ((cpu_count - 1) div arena_size)"
proof -
  from derived_count_bounds(2) [OF assms]
  have "cpu_count - 1 < arena_size * ((cpu_count - 1) div arena_size) + arena_size"
    by (simp add: distrib_left)
  then show ?thesis
    by (simp add: clamped_size_def idx_start_def)
qed

lemma arenas_disjoint:
  fixes arena_size :: int
  assumes "1 \<le> arena_size" and "i < j"
  shows "set (omp_places (arena_affinity cpu_count arena_size i)) \<inter>
         set (omp_places (arena_affinity cpu_count arena_size j)) = {}"
proof -
  from assms have "arena_size * (i + 1) \<le> arena_size * j"
    by (intro mult_left_mono) simp_all
  then have "arena_size * i + arena_size \<le> arena_size * j"
    by (simp add: distrib_left)
  moreover have "clamped_size cpu_count arena_size i \<le> arena_size"
    by (rule clamped_size_le)
  ultimately show ?thesis
    by (auto simp: arena_affinity_def idx_end_def idx_start_def)
qed

lemma places_are_range:
  "set (omp_places (arena_affinity cpu_count arena_size i)) =
   {idx_start arena_size i ..< idx_end cpu_count arena_size i}"
  by (auto simp: arena_affinity_def)

lemma sizes_sum:
  fixes cpu_count arena_size :: int
  assumes "1 \<le> cpu_count" and "1 \<le> arena_size"
  shows "(\<Sum>idx<nat ((cpu_count - 1) div arena_size + 1). clamped_size cpu_count arena_size (int idx)) = cpu_count"
proof -
  let ?q = "(cpu_count - 1) div arena_size"
  from assms have q: "0 \<le> ?q"
    by (simp add: pos_imp_zdiv_nonneg_iff)
  then have n: "nat (?q + 1) = Suc (nat ?q)" by simp
  have "(\<Sum>idx<nat ?q. clamped_size cpu_count arena_size (int idx)) = (\<Sum>idx<nat ?q. arena_size)"
    by (rule sum.cong) (use q in \<open>simp_all add: full_arena [OF assms]\<close>)
  also have "\<dots> = arena_size * ?q"
    using q by simp
  finally have "(\<Sum>idx<nat ?q. clamped_size cpu_count arena_size (int idx)) = arena_size * ?q" .
  moreover from q have "clamped_size cpu_count arena_size (int (nat ?q)) = cpu_count - arena_size * ?q"
    by (simp add: last_arena [OF assms])
  ultimately show ?thesis
    by (simp only: n sum.lessThan_Suc)
qed

text \<open>
  Claim C3. For at least one core and an arena size of at least one, the core ranges
  \<open>[idx_start, idx_end)\<close> of the derived number of arenas are pairwise disjoint, their sizes sum to at most the
  number of cores, only the last arena can be smaller than the arena size, and the last
  arena's size is the number of cores minus its start index.
\<close>

theorem arena_partition:
  fixes cpu_count arena_size :: int
  assumes "1 \<le> cpu_count" and "1 \<le> arena_size"
    and n: "derive_arena_num cpu_count arena_size None = Inr n"
  shows "(\<forall>i. set (omp_places (arena_affinity cpu_count arena_size i)) =
              {idx_start arena_size i ..< idx_end cpu_count arena_size i}) \<and>
         (\<forall>i j. 0 \<le> i \<and> i < j \<and> j < n \<longrightarrow>
            set (omp_places (arena_affinity cpu_count arena_size i)) \<inter>
            set (omp_places (arena_affinity cpu_count arena_size j)) = {}) \<and>
         (\<Sum>idx<nat n. clamped_size cpu_count arena_size (int idx)) \<le> cpu_count \<and>
         (\<forall>i. 0 \<le> i \<and> i < n \<and> clamped_size cpu_count arena_size i < arena_size \<longrightarrow> i = n - 1) \<and>
         clamped_size cpu_count arena_size (n - 1) = cpu_count - idx_start arena_size (n - 1)"
proof -
  from n assms(2) have n_eq: "n = (cpu_count - 1) div arena_size + 1"
    by (simp add: derive_arena_num_def)
  have disj: "\<forall>i j. 0 \<le> i \<and> i < j \<and> j < n \<longrightarrow>
            set (omp_places (arena_affinity cpu_count arena_size i)) \<inter>
            set (omp_places (arena_affinity cpu_count arena_size j)) = {}"
    using arenas_disjoint [OF assms(2)] by blast
  have total: "(\<Sum>idx<nat n. clamped_size cpu_count arena_size (int idx)) \<le> cpu_count"
    unfolding n_eq by (simp only: sizes_sum [OF assms(1,2)])
  have small: "\<forall>i. 0 \<le> i \<and> i < n \<and> clamped_size cpu_count arena_size i < arena_size \<longrightarrow> i = n - 1"
  proof (intro allI impI)
    fix i
    assume i: "0 \<le> i \<and> i < n \<and> clamped_size cpu_count arena_size i < arena_size"
    show "i = n - 1"
    proof (rule ccontr)
      assume "i \<noteq> n - 1"
      with i n_eq have "i < (cpu_count - 1) div arena_size" by simp
      with i have "clamped_size cpu_count arena_size i = arena_size"
        by (simp add: full_arena [OF assms(1,2)])
      with i show False by simp
    qed
  qed
  have last: "clamped_size cpu_count arena_size (n - 1) = cpu_count - idx_start arena_size (n - 1)"
    unfolding n_eq by (simp add: last_arena [OF assms(1,2)] idx_start_def)
  from places_are_range disj total small last show ?thesis by blast
qed

text \<open>Ten cores in arenas of four: the arenas are 0-3, 4-7 and 8-9.\<close>

theorem arena_partition_witness:
  "derive_arena_num 10 4 None = Inr 3 \<and>
   map (\<lambda>i. omp_places (arena_affinity 10 4 i)) [0, 1, 2] = [[0, 1, 2, 3], [4, 5, 6, 7], [8, 9]] \<and>
   set (omp_places (arena_affinity 10 4 1)) \<inter> set (omp_places (arena_affinity 10 4 2)) = {} \<and>
   (\<Sum>idx<nat 3. clamped_size 10 4 (int idx)) \<le> 10 \<and>
   clamped_size 10 4 (3 - 1) = 10 - idx_start 4 (3 - 1)"
proof -
  have n: "derive_arena_num 10 4 None = Inr 3"
    by (simp add: derive_arena_num_def)
  have places: "map (\<lambda>i. omp_places (arena_affinity 10 4 i)) [0, 1, 2] = [[0, 1, 2, 3], [4, 5, 6, 7], [8, 9]]"
    by (simp add: arena_affinity_def idx_end_def idx_start_def clamped_size_def upto.simps)
  from arena_partition [of 10 4 3, OF _ _ n] n places show ?thesis
    by simp
qed

section \<open>Properties of the result slots and of the aggregation\<close>

lemma accumulate_sums_gen:
  "fold (\<lambda>(count, duration) (total_count, total_duration).
             (total_count + count, total_duration + duration)) ps (a, b) =
   (a + sum_list (map fst ps), b + sum_list (map snd ps))"
  by (induction ps arbitrary: a b) (auto simp: algebra_simps)

lemma accumulate_sums:
  "length res_count = length res_time \<Longrightarrow>
   accumulate res_count res_time = (sum_list res_count, sum_list res_time)"
  by (simp add: accumulate_def accumulate_sums_gen)

lemma write_prefix:
  "k \<le> n \<Longrightarrow>
   fold (\<lambda>arena_idx. write_result arena_idx (workers arena_idx)) [0..<k]
       (replicate n 0, replicate n 0) =
   (map (\<lambda>i. if i < k then slot_count (workers i) else 0) [0..<n],
    map (\<lambda>i. if i < k then slot_time (workers i) else 0) [0..<n])"
proof (induction k)
  case 0
  show ?case by (simp add: list_eq_iff_nth_eq)
next
  case (Suc k)
  then have IH: "fold (\<lambda>arena_idx. write_result arena_idx (workers arena_idx)) [0..<k]
       (replicate n 0, replicate n 0) =
   (map (\<lambda>i. if i < k then slot_count (workers i) else 0) [0..<n],
    map (\<lambda>i. if i < k then slot_time (workers i) else 0) [0..<n])" by simp
  show ?case
    by (cases "workers k") (auto simp: IH list_eq_iff_nth_eq nth_list_update less_Suc_eq)
qed

lemma join_workers_slots:
  "join_workers n workers =
   (map (\<lambda>i. slot_count (workers i)) [0..<n], map (\<lambda>i. slot_time (workers i)) [0..<n])"
  by (simp add: join_workers_def write_prefix)

lemma join_workers_reports:
  assumes "length cs = length ts"
  shows "join_workers (length cs) (reports cs ts) = (cs, ts)"
proof -
  have "map (\<lambda>i. slot_count (reports cs ts i)) [0..<length cs] = cs"
    by (simp add: reports_def map_nth)
  moreover have "map (\<lambda>i. slot_time (reports cs ts i)) [0..<length ts] = ts"
    by (simp add: reports_def map_nth)
  ultimately show ?thesis
    by (simp add: join_workers_slots assms)
qed

lemma aggregate_positive:
  assumes "length cs = length ts" and "sum_list cs \<noteq> 0"
  shows "aggregate line bts cs ts = Return (latency_ms cs ts, throughput_ms_per_call bts cs)"
  using assms by (simp add: aggregate_def accumulate_sums latency_ms_def throughput_ms_per_call_def)

lemma aggregate_zero:
  assumes "length cs = length ts" and "sum_list cs = 0"
  shows "aggregate line bts cs ts = Raise ZeroDivisionError line"
  using assms by (simp add: aggregate_def accumulate_sums)

lemma barrier_arrivals_all:
  "\<forall>i<n. reaches_loop (workers i) \<Longrightarrow> barrier_arrivals n workers = int n + 1"
  by (simp add: barrier_arrivals_def)

lemma reports_simps [simp]:
  "reaches_loop (reports cs ts i)" "completes (reports cs ts i)" "exitcode (reports cs ts i) = 0"
  by (simp_all add: reports_def)

text \<open>
  Claim C1. When the workers report counts \<open>cs\<close> and elapsed times \<open>ts\<close> whose counts sum
  to a positive number, the aggregation returns \<open>latency_ms = (sum ts / sum cs) * 1000\<close>
  and \<open>throughput_ms_per_call = (benchmark_time_sec * 1000) / sum cs\<close>, in each of the
  three drivers (whose sleeps need non-negative lengths); the two figures are different
  formulas, equal only when the summed elapsed time equals the window.
\<close>

theorem aggregator_formulas:
  assumes len: "length cs = length ts" and pos: "0 < sum_list cs"
  shows "aggregate line bts cs ts = Return (latency_ms cs ts, throughput_ms_per_call bts cs) \<and>
    (derive_arena_num cpu_count arena_size arena_num = Inr (int (length cs)) \<and> 0 \<le> bts \<and> 0 \<le> chill \<longrightarrow>
       run_within_arenas cpu_count arena_size arena_num bts chill (reports cs ts) =
         (length cs, Return (latency_ms cs ts, throughput_ms_per_call bts cs))) \<and>
    (0 \<le> bts \<and> 0 \<le> chill \<longrightarrow>
       run_with_async_runner (Some (int (length cs))) bts chill (reports cs ts) =
         (length cs, Return (latency_ms cs ts, throughput_ms_per_call bts cs))) \<and>
    (0 \<le> chill \<longrightarrow>
       run_like_mlperf (Some (int (length cs))) bts chill puts (reports cs ts) =
         (length cs, Return (latency_ms cs ts, throughput_ms_per_call bts cs))) \<and>
    (latency_ms cs ts = throughput_ms_per_call bts cs \<longleftrightarrow> sum_list ts = bts)"
proof -
  from pos have nz: "sum_list cs \<noteq> 0" by simp
  from pos have ne: "cs \<noteq> []" by auto
  have agg: "aggregate l bts cs ts = Return (latency_ms cs ts, throughput_ms_per_call bts cs)" for l
    using len nz by (rule aggregate_positive)
  have arr: "barrier_arrivals (length cs) (reports cs ts) = int (length cs) + 1"
    by (rule barrier_arrivals_all) simp
  have noexit: "\<not> list_ex (\<lambda>arena_idx. exitcode (reports cs ts arena_idx) \<noteq> 0) [0..<length cs]"
    by (simp add: list_ex_iff)
  have someone: "list_ex (\<lambda>arena_idx. completes (reports cs ts arena_idx)) [0..<length cs]"
    using ne by (auto simp: list_ex_iff)
  have A: "derive_arena_num cpu_count arena_size arena_num = Inr (int (length cs)) \<and> 0 \<le> bts \<and> 0 \<le> chill \<longrightarrow>
       run_within_arenas cpu_count arena_size arena_num bts chill (reports cs ts) =
         (length cs, Return (latency_ms cs ts, throughput_ms_per_call bts cs))"
    using noexit by (simp add: run_within_arenas_def arr join_workers_reports [OF len] agg chillout_def)
  have C: "0 \<le> bts \<and> 0 \<le> chill \<longrightarrow>
       run_with_async_runner (Some (int (length cs))) bts chill (reports cs ts) =
         (length cs, Return (latency_ms cs ts, throughput_ms_per_call bts cs))"
    by (simp add: run_with_async_runner_def join_workers_reports [OF len] agg chillout_def)
  have B: "0 \<le> chill \<longrightarrow>
       run_like_mlperf (Some (int (length cs))) bts chill puts (reports cs ts) =
         (length cs, Return (latency_ms cs ts, throughput_ms_per_call bts cs))"
    using someone
    by (simp add: run_like_mlperf_def producer_blocks_def join_workers_reports [OF len] agg chillout_def)
  have D: "latency_ms cs ts = throughput_ms_per_call bts cs \<longleftrightarrow> sum_list ts = bts"
    using nz by (simp add: latency_ms_def throughput_ms_per_call_def field_simps)
  from agg A C B D show ?thesis by blast
qed

text \<open>
  Four workers with 200 calls in 2 seconds each, a window of 2 seconds: a latency of 10 ms
  and a throughput figure of 2.5 ms per call.
\<close>

theorem aggregator_formulas_witness:
  "run_within_arenas 8 1 (Some 4) 2 0 (reports [200, 200, 200, 200] [2, 2, 2, 2]) = (4, Return (10, 5 / 2)) \<and>
   run_with_async_runner (Some 4) 2 0 (reports [200, 200, 200, 200] [2, 2, 2, 2]) = (4, Return (10, 5 / 2)) \<and>
   run_like_mlperf (Some 4) 2 0 900 (reports [200, 200, 200, 200] [2, 2, 2, 2]) = (4, Return (10, 5 / 2)) \<and>
   aggregate 110 2 [200, 200, 200, 200] [2, 2, 2, 2] = Return (10, 5 / 2)"
  using aggregator_formulas [of "[200, 200, 200, 200]" "[2, 2, 2, 2]" 110 2 8 1 "Some 4" 0 900]
  by (simp add: latency_ms_def throughput_ms_per_call_def derive_arena_num_def)

section \<open>Failing runs\<close>

lemma slots_zero_no_Return:
  assumes "sum_list (fst (join_workers n workers)) = 0"
  shows "(case join_workers n workers of
            (res_count, res_time) \<Rightarrow> chillout l chill (aggregate line bts res_count res_time))
         \<noteq> Return figures"
proof -
  have "aggregate line bts (map (\<lambda>i. slot_count (workers i)) [0..<n])
          (map (\<lambda>i. slot_time (workers i)) [0..<n]) = Raise ZeroDivisionError line"
    using assms by (intro aggregate_zero) (simp_all add: join_workers_slots)
  then show ?thesis
    by (simp add: join_workers_slots chillout_def)
qed

text \<open>
  Claim C8. When the counts in the result slots sum to zero, the division of the
  aggregation raises \<open>ZeroDivisionError\<close> and none of the three drivers returns figures.
\<close>

theorem zero_calls_fail:
  assumes zero: "sum_list (fst (join_workers (nat n) workers)) = 0"
  shows "aggregate line bts (fst (join_workers (nat n) workers)) (snd (join_workers (nat n) workers)) =
           Raise ZeroDivisionError line \<and>
    (derive_arena_num cpu_count arena_size arena_num = Inr n \<longrightarrow>
       (\<forall>figures. snd (run_within_arenas cpu_count arena_size arena_num bts chill workers) \<noteq> Return figures)) \<and>
    (\<forall>figures. snd (run_with_async_runner (Some n) bts chill workers) \<noteq> Return figures) \<and>
    (\<forall>figures. snd (run_like_mlperf (Some n) bts chill puts workers) \<noteq> Return figures)"
proof -
  have agg: "aggregate line bts (fst (join_workers (nat n) workers)) (snd (join_workers (nat n) workers)) =
           Raise ZeroDivisionError line"
    using zero by (intro aggregate_zero) (simp_all add: join_workers_slots)
  have A: "derive_arena_num cpu_count arena_size arena_num = Inr n \<longrightarrow>
       (\<forall>figures. snd (run_within_arenas cpu_count arena_size arena_num bts chill workers) \<noteq> Return figures)"
    using slots_zero_no_Return [OF zero] by (simp add: run_within_arenas_def Let_def)
  have C: "\<forall>figures. snd (run_with_async_runner (Some n) bts chill workers) \<noteq> Return figures"
    using slots_zero_no_Return [OF zero] by (simp add: run_with_async_runner_def Let_def)
  have B: "\<forall>figures. snd (run_like_mlperf (Some n) bts chill puts workers) \<noteq> Return figures"
    using slots_zero_no_Return [OF zero] by (simp add: run_like_mlperf_def Let_def)
  from agg A C B show ?thesis by blast
qed

text \<open>Two workers that make no call in a window of 10 seconds.\<close>

theorem zero_calls_fail_witness:
  "sum_list (fst (join_workers (nat 2) (reports [0, 0] [10, 10]))) = 0 \<and>
   aggregate 110 10 [0, 0] [10, 10] = Raise ZeroDivisionError 110 \<and>
   run_within_arenas 8 1 (Some 2) 10 0 (reports [0, 0] [10, 10]) = (2, Raise ZeroDivisionError 110) \<and>
   run_with_async_runner (Some 2) 10 0 (reports [0, 0] [10, 10]) = (2, Raise ZeroDivisionError 169) \<and>
   run_like_mlperf (Some 2) 10 0 0 (reports [0, 0] [10, 10]) = (2, Raise ZeroDivisionError 238)"
proof -
  have z: "sum_list (fst (join_workers (nat 2) (reports [0, 0] [10, 10]))) = 0"
    by code_simp
  have a: "aggregate 110 10 [0, 0] [10, 10] = Raise ZeroDivisionError 110"
    by code_simp
  have r: "run_within_arenas 8 1 (Some 2) 10 0 (reports [0, 0] [10, 10]) = (2, Raise ZeroDivisionError 110)"
    "run_with_async_runner (Some 2) 10 0 (reports [0, 0] [10, 10]) = (2, Raise ZeroDivisionError 169)"
    "run_like_mlperf (Some 2) 10 0 0 (reports [0, 0] [10, 10]) = (2, Raise ZeroDivisionError 238)"
    by code_simp+
  from zero_calls_fail [OF z, of 110 10 8 1 "Some 2" 0 0] z a r show ?thesis
    by simp
qed

section \<open>Arena sizes that are not checked\<close>

text \<open>
  Claim C7 says that an arena size or a core count below one ends the run with a
  \<open>ConfigurationError\<close> before any worker is started. The program has no such exception
  and checks neither input: with an arena size of zero the derivation of the arena count
  raises \<open>ZeroDivisionError\<close>, and with an explicit arena count the run starts its workers
  and returns figures, for an arena size of zero as for a core count of zero.
\<close>

theorem sizing_unchecked_counterexample:
  "run_within_arenas 8 0 None 10 0 (reports [100, 100] [10, 10]) = (0, Raise ZeroDivisionError 81) \<and>
   run_within_arenas 8 0 (Some 2) 10 0 (reports [100, 100] [10, 10]) = (2, Return (100, 50)) \<and>
   run_within_arenas 0 1 (Some 2) 10 0 (reports [100, 100] [10, 10]) = (2, Return (100, 50))"
  by code_simp

text \<open>
  Claim C7 as amended: the harness does not validate the arena size or the core count.
  With the arena count unspecified and an arena size of zero it fails with
  \<open>ZeroDivisionError\<close> at line 81, before any worker is started; with an explicit arena
  count the run does not depend on the arena size or the core count at all.
\<close>

theorem sizing_unchecked:
  "run_within_arenas cpu_count 0 None bts chill workers = (0, Raise ZeroDivisionError 81) \<and>
   run_within_arenas cpu_count arena_size (Some n) bts chill workers =
   run_within_arenas cpu_count' arena_size' (Some n) bts chill workers"
  by (simp add: run_within_arenas_def derive_arena_num_def)

section \<open>Workers that raise\<close>

lemma failed_worker_found:
  assumes "idx < n" and "exitcode (workers idx) \<noteq> 0"
  shows "list_ex (\<lambda>arena_idx. exitcode (workers arena_idx) \<noteq> 0) [0..<n]"
  using assms by (auto simp: list_ex_iff)

text \<open>
  Claim C9 says that in all three variants a worker that raised makes the driver fail the
  run after joining. The thread variants check nothing after \<open>join\<close>: the slots of a
  thread that raised stay at zero and the driver reports the figures of the others. In
  the process variant a worker that raises in its initialisation never reaches the
  barrier, and the driver waits there forever instead of joining.
\<close>

theorem worker_failure_counterexample:
  "run_with_async_runner (Some 2) 10 0 ((reports [100, 100] [10, 10])(0 := CallRaises 3)) =
     (2, Return (100, 100)) \<and>
   run_like_mlperf (Some 2) 10 0 500 ((reports [100, 100] [10, 10])(0 := CallRaises 3)) =
     (2, Return (100, 100)) \<and>
   run_within_arenas 8 1 (Some 2) 10 0 ((reports [100, 100] [10, 10])(0 := InitRaises)) =
     (2, Hang)"
  by code_simp

text \<open>
  Claim C9 as amended: in \<open>run_within_arenas\<close>, whose workers are processes, a run in
  which some worker ends with a non-zero exit code returns no figures; when every worker
  got past its initialisation and the benchmark time is not negative, the driver's
  \<open>assert p.exitcode == 0\<close> after \<open>join\<close> (line 102) raises \<open>AssertionError\<close>.
\<close>

theorem worker_failure_asserted:
  assumes n: "derive_arena_num cpu_count arena_size arena_num = Inr n"
    and idx: "idx < nat n" and failed: "exitcode (workers idx) \<noteq> 0"
  shows "(\<forall>figures. snd (run_within_arenas cpu_count arena_size arena_num bts chill workers) \<noteq> Return figures) \<and>
    ((\<forall>i<nat n. reaches_loop (workers i)) \<and> 0 \<le> bts \<longrightarrow>
       run_within_arenas cpu_count arena_size arena_num bts chill workers = (nat n, Raise AssertionError 102))"
proof -
  from idx failed have ex: "list_ex (\<lambda>arena_idx. exitcode (workers arena_idx) \<noteq> 0) [0..<nat n]"
    by (rule failed_worker_found)
  from idx have "0 \<le> n" by simp
  then have arr: "(\<forall>i<nat n. reaches_loop (workers i)) \<Longrightarrow> barrier_arrivals (nat n) workers = n + 1"
    by (simp add: barrier_arrivals_all)
  have no: "\<forall>figures. snd (run_within_arenas cpu_count arena_size arena_num bts chill workers) \<noteq> Return figures"
    using ex by (simp add: run_within_arenas_def n Let_def)
  have as: "(\<forall>i<nat n. reaches_loop (workers i)) \<and> 0 \<le> bts \<longrightarrow>
       run_within_arenas cpu_count arena_size arena_num bts chill workers = (nat n, Raise AssertionError 102)"
    using ex arr by (simp add: run_within_arenas_def n Let_def)
  from no as show ?thesis by blast
qed

text \<open>Two processes; the third call of the first one raises.\<close>

theorem worker_failure_asserted_witness:
  "derive_arena_num 8 1 (Some 2) = Inr 2 \<and>
   exitcode (CallRaises 3) \<noteq> 0 \<and>
   run_within_arenas 8 1 (Some 2) 10 0 ((reports [100, 100] [10, 10])(0 := CallRaises 3)) =
     (nat 2, Raise AssertionError 102)"
proof -
  have n: "derive_arena_num 8 1 (Some 2) = Inr 2"
    by (simp add: derive_arena_num_def)
  have idx: "(0::nat) < nat 2" by simp
  have failed: "exitcode (((reports [100, 100] [10, 10])(0 := CallRaises 3)) (0::nat)) \<noteq> 0"
    by simp
  have reach: "\<forall>i<nat 2. reaches_loop (((reports [100, 100] [10, 10])(0 := CallRaises 3)) i)"
    by simp
  from worker_failure_asserted
    [where workers = "(reports [100, 100] [10, 10])(0 := CallRaises 3)" and idx = 0
      and bts = 10 and chill = 0, OF n idx failed]
    reach n
  show ?thesis
    by simp
qed

section \<open>An unspecified arena count\<close>

text \<open>
  Claim C10 says that both thread drivers raise their \<open>TypeError\<close> for an unspecified
  arena count when they build the result lists \<open>[0] * arena_num\<close>. \<open>run_like_mlperf\<close>
  raises it earlier, at \<open>Queue(maxsize=arena_num * 4)\<close> on line 209; its result lists are
  built on lines 213 and 214.
\<close>

theorem unspecified_arena_num_counterexample:
  "snd (run_like_mlperf None 10 0 500 (reports [100, 100] [10, 10])) = Raise TypeError 209 \<and>
   snd (run_like_mlperf None 10 0 500 (reports [100, 100] [10, 10])) \<noteq> Raise TypeError 213 \<and>
   snd (run_like_mlperf None 10 0 500 (reports [100, 100] [10, 10])) \<noteq> Raise TypeError 214"
  by (simp add: run_like_mlperf_def)

text \<open>
  Claim C10 as amended: \<open>None\<close> is a usable arena count for \<open>run_within_arenas\<close> only,
  which derives a count from it. \<open>run_with_async_runner\<close> raises \<open>TypeError\<close> when it
  builds its result lists (line 148) and \<open>run_like_mlperf\<close> when it computes the capacity
  of its queue (line 209), both before any worker is started; and with an arena count
  below one neither returns figures, so callers must pass an arena count of at least one.
\<close>

theorem unspecified_arena_num:
  "(arena_size \<noteq> 0 \<longrightarrow>
      derive_arena_num cpu_count arena_size None = Inr ((cpu_count - 1) div arena_size + 1)) \<and>
   run_with_async_runner None bts chill workers = (0, Raise TypeError 148) \<and>
   run_like_mlperf None bts chill puts workers = (0, Raise TypeError 209) \<and>
   (n < 1 \<longrightarrow>
      (\<forall>figures. snd (run_with_async_runner (Some n) bts chill workers) \<noteq> Return figures) \<and>
      (\<forall>figures. snd (run_like_mlperf (Some n) bts chill puts workers) \<noteq> Return figures))"
proof -
  have zero: "n < 1 \<Longrightarrow> sum_list (fst (join_workers (nat n) workers)) = 0"
    by (simp add: join_workers_def)
  have C: "n < 1 \<Longrightarrow> snd (run_with_async_runner (Some n) bts chill workers) \<noteq> Return figures"
    for figures
    using slots_zero_no_Return [OF zero] by (simp add: run_with_async_runner_def Let_def)
  have B: "n < 1 \<Longrightarrow> snd (run_like_mlperf (Some n) bts chill puts workers) \<noteq> Return figures"
    for figures
    using slots_zero_no_Return [OF zero] by (simp add: run_like_mlperf_def Let_def)
  have N: "run_with_async_runner None bts chill workers = (0, Raise TypeError 148)"
    "run_like_mlperf None bts chill puts workers = (0, Raise TypeError 209)"
    by (simp_all add: run_with_async_runner_def run_like_mlperf_def)
  have D: "arena_size \<noteq> 0 \<longrightarrow>
      derive_arena_num cpu_count arena_size None = Inr ((cpu_count - 1) div arena_size + 1)"
    by (simp add: derive_arena_num_def)
  from C B N D show ?thesis by blast
qed

theorem unspecified_arena_num_witness:
  "(4::int) \<noteq> 0 \<and> derive_arena_num 10 4 None = Inr 3 \<and> (0::int) < 1 \<and>
   run_with_async_runner None 10 0 (reports [] []) = (0, Raise TypeError 148) \<and>
   run_like_mlperf None 10 0 500 (reports [] []) = (0, Raise TypeError 209) \<and>
   snd (run_with_async_runner (Some 0) 10 0 (reports [] [])) = Raise ZeroDivisionError 169 \<and>
   snd (run_like_mlperf (Some 0) 10 0 500 (reports [] [])) = Raise ZeroDivisionError 238"
proof -
  have r: "snd (run_with_async_runner (Some 0) 10 0 (reports [] [])) = Raise ZeroDivisionError 169"
    "snd (run_like_mlperf (Some 0) 10 0 500 (reports [] [])) = Raise ZeroDivisionError 238"
    by code_simp+
  from unspecified_arena_num [of 4 10 10 0 "reports [] []" 500 0] r show ?thesis
    by simp
qed

section \<open>The elapsed time of a queue worker\<close>

lemma mlperf_loop_until_sentinel:
  assumes "\<forall>d \<in> set pre. fst (snd d) = Ticket"
  shows "mlperf_loop now tot_count (pre @ (waited, Sentinel, infer_time) # rest) =
         Some (now + (\<Sum>(w, q, s) \<leftarrow> pre. w + s) + waited, tot_count + int (length pre))"
  using assms
proof (induction pre arbitrary: now tot_count)
  case Nil
  show ?case by simp
next
  case (Cons d pre)
  obtain w q s where d: "d = (w, q, s)" by (cases d)
  with Cons.prems have q: "q = Ticket" by simp
  from Cons.prems have "\<forall>d \<in> set pre. fst (snd d) = Ticket" by simp
  then show ?case
    by (simp add: d q Cons.IH algebra_simps)
qed

text \<open>
  Claim C6 says that the elapsed time a queue worker records runs from its first dequeue
  to its last completed call and does not depend on the driver's pace. A worker that
  waits 5 seconds for its only ticket, works on it for 1 second and waits 3 seconds for its
  sentinel records 9 seconds, where the interval of the claim is 1 second; had the driver
  put both items at once, the same worker with the same call would have recorded 1 second.
\<close>

theorem queue_elapsed_counterexample:
  "mlperf_routine 0 0 [(5, Ticket, 1), (3, Sentinel, 0)] = Some (1, 9) \<and>
   first_dequeue_to_last_call 0 [(5, Ticket, 1), (3, Sentinel, 0)] = 1 \<and>
   mlperf_routine 0 0 [(0, Ticket, 1), (0, Sentinel, 0)] = Some (1, 1)"
  by (simp add: mlperf_routine_def first_dequeue_to_last_call_def)

text \<open>
  Claim C6 as amended: a queue worker that receives tickets and then a sentinel records
  the number of tickets and the time from the timestamp it takes before its loop (after
  preparing its input) to the moment it has taken the sentinel from the queue: the sum of
  all its waits in \<open>get\<close>, the one for the first ticket and the one for the sentinel
  included, and of the times of its calls. The time before the timestamp is not counted.
\<close>

theorem queue_elapsed:
  assumes "\<forall>d \<in> set pre. fst (snd d) = Ticket"
  shows "mlperf_routine entry prepare (pre @ (waited, Sentinel, infer_time) # rest) =
         Some (int (length pre), (\<Sum>(w, q, s) \<leftarrow> pre. w + s) + waited)"
  using mlperf_loop_until_sentinel [OF assms]
  by (simp add: mlperf_routine_def)

theorem queue_elapsed_witness:
  "mlperf_routine 7 2 ([(5, Ticket, 1), (0, Ticket, 1)] @ (3, Sentinel, 0) # [(1, Ticket, 1)]) =
     Some (2, 10)"
  using queue_elapsed [of "[(5, Ticket, 1), (0, Ticket, 1)]" 7 2 3 0 "[(1, Ticket, 1)]"]
  by simp

section \<open>The queue protocol\<close>

lemma count_list_update:
  "i < length xs \<Longrightarrow>
   count_list (xs[i := y]) z + (if xs ! i = z then 1 else 0) =
   count_list xs z + (if y = z then 1 else 0)"
proof (induction xs arbitrary: i)
  case Nil
  then show ?case by simp
next
  case (Cons x xs)
  show ?case
  proof (cases i)
    case 0
    then show ?thesis by simp
  next
    case (Suc j)
    with Cons.prems have "j < length xs" by simp
    from Cons.IH [OF this] Suc show ?thesis by (simp split: if_splits)
  qed
qed

lemma count_list_length:
  "\<forall>y \<in> set xs. y = x \<Longrightarrow> count_list xs x = length xs"
  by (induction xs) auto

lemma count_list_all:
  "count_list xs x = length xs \<Longrightarrow> \<forall>y \<in> set xs. y = x"
proof (induction xs)
  case Nil
  show ?case by simp
next
  case (Cons a xs)
  have "count_list xs x \<le> length xs" by (rule count_le_length)
  with Cons show ?case by (auto split: if_splits)
qed

lemma q_inv_init: "q_inv arena_num (q_init arena_num)"
  by (simp add: q_inv_def q_init_def count_list_0_iff)

lemma q_inv_step:
  assumes "qstep arena_num s t" and "q_inv arena_num s"
  shows "q_inv arena_num t"
  using assms
proof (cases rule: qstep.cases)
  case put_ticket
  with assms(2) show ?thesis by (simp add: q_inv_def)
next
  case window_closes
  with assms(2) show ?thesis by (simp add: q_inv_def)
next
  case (put_sentinel k)
  with assms(2) show ?thesis by (simp add: q_inv_def)
next
  case (get_ticket i q)
  from count_list_update [OF get_ticket(2), of Inferring Exited] get_ticket(3)
  have "count_list ((threads s)[i := Inferring]) Exited = count_list (threads s) Exited" by simp
  with assms(2) get_ticket show ?thesis
    by (cases "driver s") (simp_all add: q_inv_def)
next
  case (get_sentinel i q)
  from count_list_update [OF get_sentinel(2), of Exited Exited] get_sentinel(3)
  have "count_list ((threads s)[i := Exited]) Exited = Suc (count_list (threads s) Exited)" by simp
  with assms(2) get_sentinel show ?thesis
    by (cases "driver s") (simp_all add: q_inv_def)
next
  case (infer_done i)
  from count_list_update [OF infer_done(2), of Getting Exited] infer_done(3)
  have "count_list ((threads s)[i := Getting]) Exited = count_list (threads s) Exited" by simp
  with assms(2) infer_done show ?thesis
    by (cases "driver s") (simp_all add: q_inv_def)
qed

lemma q_reachable_inv: "q_reachable arena_num s \<Longrightarrow> q_inv arena_num s"
  by (induction rule: q_reachable.induct) (auto intro: q_inv_init q_inv_step)

lemma closed_step_decreases:
  assumes "qstep arena_num s t" and "driver s = Closing k"
  shows "(\<exists>k'. driver t = Closing k') \<and> remaining_work t < remaining_work s"
  using assms
proof (cases rule: qstep.cases)
  case put_ticket
  with assms(2) show ?thesis by simp
next
  case window_closes
  with assms(2) show ?thesis by simp
next
  case (put_sentinel k)
  then show ?thesis by (simp add: remaining_work_def)
next
  case (get_ticket i q)
  from count_list_update [OF get_ticket(2), of Inferring Inferring] get_ticket(3)
  have "count_list ((threads s)[i := Inferring]) Inferring = Suc (count_list (threads s) Inferring)"
    by simp
  with assms(2) get_ticket show ?thesis by (simp add: remaining_work_def)
next
  case (get_sentinel i q)
  from count_list_update [OF get_sentinel(2), of Exited Inferring] get_sentinel(3)
  have "count_list ((threads s)[i := Exited]) Inferring = count_list (threads s) Inferring"
    by simp
  with assms(2) get_sentinel show ?thesis by (simp add: remaining_work_def)
next
  case (infer_done i)
  from count_list_update [OF infer_done(2), of Getting Inferring] infer_done(3)
  have "Suc (count_list ((threads s)[i := Getting]) Inferring) = count_list (threads s) Inferring"
    by simp
  with assms(2) infer_done show ?thesis by (simp add: remaining_work_def)
qed

lemma closed_run_bounded:
  "q_run arena_num s ts \<Longrightarrow> driver s = Closing k \<Longrightarrow> length ts \<le> remaining_work s"
proof (induction ts arbitrary: s k)
  case Nil
  show ?case by simp
next
  case (Cons t ts)
  from Cons.prems have step: "qstep arena_num s t" and run: "q_run arena_num t ts" by simp_all
  from closed_step_decreases [OF step Cons.prems(2)]
  obtain k' where "driver t = Closing k'" and less: "remaining_work t < remaining_work s" by blast
  with Cons.IH [OF run] have "length ts \<le> remaining_work t" by simp
  with less show ?case by simp
qed

lemma stuck_all_exited:
  assumes inv: "q_inv arena_num s" and closed: "driver s = Closing k"
    and stuck: "\<forall>t. \<not> qstep arena_num s t"
  shows "k = 0 \<and> (\<forall>w \<in> set (threads s). w = Exited)"
proof -
  have no_infer: "threads s ! i \<noteq> Inferring" if "i < length (threads s)" for i
    using stuck qstep.infer_done [OF that] by blast
  have no_get: "threads s ! i \<noteq> Getting" if "i < length (threads s)" and "queue s \<noteq> []" for i
  proof
    assume g: "threads s ! i = Getting"
    from that(2) obtain x q where q: "queue s = x # q" by (cases "queue s") auto
    show False
    proof (cases x)
      case Ticket
      with q qstep.get_ticket [OF that(1) g] stuck show False by blast
    next
      case Sentinel
      with q qstep.get_sentinel [OF that(1) g] stuck show False by blast
    qed
  qed
  from inv closed have count: "count_list (queue s) Sentinel + count_list (threads s) Exited + k = arena_num"
    and len: "length (threads s) = arena_num"
    by (simp_all add: q_inv_def)
  show ?thesis
  proof (cases "queue s = []")
    case True
    have "k = 0"
    proof (rule ccontr)
      assume "k \<noteq> 0"
      then obtain k' where k: "k = Suc k'" by (cases k) auto
      have "has_room arena_num (queue s)" by (cases arena_num) (simp_all add: has_room_def True)
      with closed k qstep.put_sentinel stuck show False by blast
    qed
    with count True len have "count_list (threads s) Exited = length (threads s)" by simp
    then have "\<forall>w \<in> set (threads s). w = Exited" by (rule count_list_all)
    with \<open>k = 0\<close> show ?thesis by simp
  next
    case False
    have all: "\<forall>w \<in> set (threads s). w = Exited"
    proof
      fix w assume "w \<in> set (threads s)"
      then obtain i where i: "i < length (threads s)" and w: "w = threads s ! i"
        by (auto simp: in_set_conv_nth)
      from no_infer [OF i] no_get [OF i False] w show "w = Exited" by (cases w) auto
    qed
    then have "count_list (threads s) Exited = length (threads s)"
      by (rule count_list_length)
    with count len show ?thesis using all by simp
  qed
qed


lemma sentinel_taken_ends_worker:
  assumes "qstep arena_num s t" and "queue s = Sentinel # q" and "queue t = q"
  shows "\<exists>i<length (threads s). threads s ! i = Getting \<and> threads t = (threads s)[i := Exited]"
  using assms by (cases rule: qstep.cases) auto

text \<open>
  Claim C4. In the queue variant, once the window has closed the driver puts exactly one
  sentinel per worker: the sentinels in the queue, the workers that have left their loop
  and the sentinels still to put add up to the number of workers. A worker that takes a
  sentinel leaves its loop. Every step from then on reduces the remaining work, so no run
  is longer than the remaining work, and when nothing can move any more all sentinels are
  put and every worker has left its loop by its sentinel: no worker waits at the queue
  forever.
\<close>

theorem sentinels_end_every_worker:
  assumes reach: "q_reachable arena_num s" and closed: "driver s = Closing k"
  shows "length (threads s) = arena_num \<and>
    count_list (queue s) Sentinel + count_list (threads s) Exited + k = arena_num \<and>
    (\<forall>t q. qstep arena_num s t \<and> queue s = Sentinel # q \<and> queue t = q \<longrightarrow>
       (\<exists>i<arena_num. threads s ! i = Getting \<and> threads t = (threads s)[i := Exited])) \<and>
    (\<forall>t. qstep arena_num s t \<longrightarrow>
       (\<exists>k'. driver t = Closing k') \<and> remaining_work t < remaining_work s) \<and>
    (\<forall>ts. q_run arena_num s ts \<longrightarrow> length ts \<le> remaining_work s) \<and>
    ((\<forall>t. \<not> qstep arena_num s t) \<longrightarrow> k = 0 \<and> (\<forall>w \<in> set (threads s). w = Exited))"
proof -
  from reach have inv: "q_inv arena_num s" by (rule q_reachable_inv)
  with closed have len: "length (threads s) = arena_num"
    and count: "count_list (queue s) Sentinel + count_list (threads s) Exited + k = arena_num"
    by (simp_all add: q_inv_def)
  have taken: "\<forall>t q. qstep arena_num s t \<and> queue s = Sentinel # q \<and> queue t = q \<longrightarrow>
       (\<exists>i<arena_num. threads s ! i = Getting \<and> threads t = (threads s)[i := Exited])"
    using sentinel_taken_ends_worker [of arena_num s] len by blast
  have less: "\<forall>t. qstep arena_num s t \<longrightarrow>
       (\<exists>k'. driver t = Closing k') \<and> remaining_work t < remaining_work s"
    using closed_step_decreases [OF _ closed] by blast
  have bound: "\<forall>ts. q_run arena_num s ts \<longrightarrow> length ts \<le> remaining_work s"
    using closed_run_bounded [OF _ closed] by blast
  have stuck: "(\<forall>t. \<not> qstep arena_num s t) \<longrightarrow> k = 0 \<and> (\<forall>w \<in> set (threads s). w = Exited)"
    using stuck_all_exited [OF inv closed] by blast
  from len count taken less bound stuck show ?thesis by blast
qed

text \<open>
  One worker: the window closes, the driver puts the sentinel, the worker takes it and
  leaves its loop.
\<close>

theorem sentinels_end_every_worker_witness:
  "q_reachable 1 \<lparr>queue = [Sentinel], driver = Closing 0, threads = [Getting]\<rparr> \<and>
   qstep 1 \<lparr>queue = [Sentinel], driver = Closing 0, threads = [Getting]\<rparr>
           \<lparr>queue = [], driver = Closing 0, threads = [Exited]\<rparr> \<and>
   remaining_work \<lparr>queue = [], driver = Closing 0, threads = [Exited]\<rparr>
     < remaining_work \<lparr>queue = [Sentinel], driver = Closing 0, threads = [Getting]\<rparr> \<and>
   count_list [Sentinel] Sentinel + count_list [Getting] Exited + 0 = (1::nat)"
proof -
  let ?s1 = "\<lparr>queue = [], driver = Closing 1, threads = [Getting]\<rparr>"
  let ?s2 = "\<lparr>queue = [Sentinel], driver = Closing 0, threads = [Getting]\<rparr>"
  let ?s3 = "\<lparr>queue = [], driver = Closing 0, threads = [Exited]\<rparr>"
  have "qstep 1 (q_init 1) ((q_init 1)\<lparr>driver := Closing 1\<rparr>)"
    by (rule qstep.window_closes) (simp add: q_init_def)
  then have "qstep 1 (q_init 1) ?s1" by (simp add: q_init_def)
  with q_start have r1: "q_reachable 1 ?s1" by (rule q_next)
  have "qstep 1 ?s1 (?s1\<lparr>queue := queue ?s1 @ [Sentinel], driver := Closing 0\<rparr>)"
    by (rule qstep.put_sentinel) (simp_all add: has_room_def)
  then have "qstep 1 ?s1 ?s2" by simp
  with r1 have r2: "q_reachable 1 ?s2" by (rule q_next)
  have "qstep 1 ?s2 (?s2\<lparr>queue := [], threads := (threads ?s2)[0 := Exited]\<rparr>)"
    by (rule qstep.get_sentinel) simp_all
  then have step: "qstep 1 ?s2 ?s3" by simp
  have closed: "driver ?s2 = Closing 0" by simp
  from sentinels_end_every_worker [OF r2 closed] step r2 show ?thesis
    by simp
qed

section \<open>The barrier at the start of a run\<close>

lemma filter_update_length:
  "i < length xs \<Longrightarrow>
   length (filter P (xs[i := y])) + (if P (xs ! i) then 1 else 0) =
   length (filter P xs) + (if P y then 1 else 0)"
proof (induction xs arbitrary: i)
  case Nil
  then show ?case by simp
next
  case (Cons x xs)
  show ?case
  proof (cases i)
    case 0
    then show ?thesis by simp
  next
    case (Suc j)
    with Cons.prems have "j < length xs" by simp
    from Cons.IH [OF this] Suc show ?thesis by (simp split: if_splits)
  qed
qed

lemma filter_all:
  "length (filter P xs) = length xs \<Longrightarrow> list_all P xs"
proof (induction xs)
  case Nil
  show ?case by simp
next
  case (Cons a xs)
  have le: "length (filter P xs) \<le> length xs" by (rule length_filter_le)
  show ?case
  proof (cases "P a")
    case True
    with Cons show ?thesis by simp
  next
    case False
    with Cons.prems le show ?thesis by simp
  qed
qed

lemma in_set_update:
  "w \<in> set (xs[i := y]) \<Longrightarrow> w = y \<or> w \<in> set xs"
  using set_update_subset_insert [of xs i y] by auto

lemma unstarted_at:
  assumes "list_all unstarted (drop k ps)" and "k \<le> i" and "i < length ps"
  shows "unstarted (ps ! i)"
proof -
  from assms(2,3) have "ps ! i = drop k ps ! (i - k)" and "i - k < length (drop k ps)"
    by simp_all
  then have "ps ! i \<in> set (drop k ps)"
    by (metis nth_mem)
  with assms(1) show ?thesis by (simp add: list_all_iff)
qed

lemma drop_suc_unstarted:
  "list_all unstarted (drop k ps) \<Longrightarrow> list_all unstarted (drop (Suc k) ps)"
  using set_drop_subset_set_drop [of k "Suc k" ps] by (auto simp: list_all_iff)

lemma spawned_upto_update:
  assumes "spawned_upto arena_num ps d" and "i < length ps" and "\<not> unstarted (ps ! i)"
  shows "spawned_upto arena_num (ps[i := w]) d"
proof (cases d)
  case (Spawning k)
  with assms(1) have k: "k \<le> arena_num" and un: "list_all unstarted (drop k ps)" by simp_all
  have "i < k"
  proof (rule ccontr)
    assume "\<not> i < k"
    then have "k \<le> i" by simp
    with un have "unstarted (ps ! i)" using assms(2) by (rule unstarted_at)
    with assms(3) show False by simp
  qed
  then have "drop k (ps[i := w]) = drop k ps" by (rule drop_update_cancel)
  with k un Spawning show ?thesis by simp
next
  case DriverAtBarrier
  then show ?thesis by simp
next
  case (DriverTiming rel)
  then show ?thesis by simp
qed

lemma well_timed_later: "well_timed now w \<Longrightarrow> well_timed (Suc now) w"
  by (cases "(now, w)" rule: well_timed.cases) auto

lemma st_inv_init: "st_inv arena_num (st_init arena_num)"
  by (simp add: st_inv_def st_init_def list_all_iff)

lemma st_inv_step:
  assumes step: "st_step Arenas arena_num s t" and inv: "st_inv arena_num s"
  shows "st_inv arena_num t"
proof -
  from inv have len: "length (procs s) = arena_num"
    and cnt: "arrivals s = length (filter arrived (procs s)) + (if driver_arrived (driver_at s) then 1 else 0)"
    and wt: "\<forall>w \<in> set (procs s). well_timed (clock s) w"
    and pb: "(\<exists>w \<in> set (procs s). past_barrier w) \<longrightarrow> arrivals s = arena_num + 1"
    and dn: "driver_at s \<noteq> DriverTiming None"
    and sp: "spawned_upto arena_num (procs s) (driver_at s)"
    unfolding st_inv_def by blast+
  have le: "length (filter arrived (procs s)) \<le> arena_num"
    using length_filter_le [of arrived "procs s"] len by simp
  have wt': "\<forall>w \<in> set (procs s). well_timed (Suc (clock s)) w"
    using wt well_timed_later by blast
  from step show ?thesis
  proof (cases rule: st_step.cases)
    case (spawn k)
    from spawn(3) len have kl: "k < length (procs s)" by simp
    from spawn(2) sp have un: "list_all unstarted (drop k (procs s))" by simp
    from un le_refl kl have "unstarted (procs s ! k)" by (rule unstarted_at)
    then have k: "procs s ! k = NotStarted"
      by (cases "procs s ! k") simp_all
    from filter_update_length [OF kl, of arrived Initializing] k
    have f: "length (filter arrived ((procs s)[k := Initializing])) = length (filter arrived (procs s))"
      by simp
    have w: "\<forall>w \<in> set ((procs s)[k := Initializing]). well_timed (Suc (clock s)) w"
      using wt' by (auto dest: in_set_update)
    have p: "(\<exists>w \<in> set ((procs s)[k := Initializing]). past_barrier w) \<longrightarrow> arrivals s = arena_num + 1"
      using pb by (auto dest: in_set_update)
    have "drop (Suc k) ((procs s)[k := Initializing]) = drop (Suc k) (procs s)"
      by (rule drop_update_cancel) simp
    moreover from un have "list_all unstarted (drop (Suc k) (procs s))"
      by (rule drop_suc_unstarted)
    ultimately have "spawned_upto arena_num ((procs s)[k := Initializing]) (Spawning (Suc k))"
      using spawn(3) by simp
    with spawn len cnt f w p show ?thesis
      by (simp add: st_inv_def)
  next
    case driver_wait
    from driver_wait(3) cnt le have "arrivals s < arena_num + 1" by simp
    with pb have "\<not> (\<exists>w \<in> set (procs s). past_barrier w)" by auto
    with driver_wait len cnt wt' show ?thesis
      by (simp add: st_inv_def)
  next
    case driver_release
    with len cnt wt' pb show ?thesis
      by (simp add: st_inv_def)
  next
    case driver_no_barrier
    then show ?thesis by simp
  next
    case (worker_wait i)
    from filter_update_length [OF worker_wait(3), of arrived AtBarrier] worker_wait(4)
    have f: "length (filter arrived ((procs s)[i := AtBarrier])) = Suc (length (filter arrived (procs s)))"
      by simp
    have "length (filter arrived ((procs s)[i := AtBarrier])) \<le> arena_num"
      using length_filter_le [of arrived "(procs s)[i := AtBarrier]"] len by simp
    with f cnt have "arrivals s < arena_num + 1" by simp
    with pb have none: "\<not> (\<exists>w \<in> set (procs s). past_barrier w)" by auto
    then have p: "\<not> (\<exists>w \<in> set ((procs s)[i := AtBarrier]). past_barrier w)"
      by (auto dest: in_set_update)
    have w: "\<forall>w \<in> set ((procs s)[i := AtBarrier]). well_timed (Suc (clock s)) w"
      using wt' by (auto dest: in_set_update)
    have "spawned_upto arena_num ((procs s)[i := AtBarrier]) (driver_at s)"
      using sp worker_wait(3,4) by (intro spawned_upto_update) simp_all
    with worker_wait len cnt f w p dn show ?thesis
      by (simp add: st_inv_def)
  next
    case (worker_release i)
    from filter_update_length [OF worker_release(2), of arrived "Released (clock s)"] worker_release(3)
    have f: "length (filter arrived ((procs s)[i := Released (clock s)])) = length (filter arrived (procs s))"
      by simp
    have w: "\<forall>w \<in> set ((procs s)[i := Released (clock s)]). well_timed (Suc (clock s)) w"
      using wt' by (auto dest: in_set_update)
    have "spawned_upto arena_num ((procs s)[i := Released (clock s)]) (driver_at s)"
      using sp worker_release(2,3) by (intro spawned_upto_update) simp_all
    with worker_release len cnt f w dn show ?thesis
      by (simp add: st_inv_def)
  next
    case (worker_stamp i r)
    from worker_stamp(2,3) have mem: "Released r \<in> set (procs s)"
      by (auto simp: in_set_conv_nth)
    with wt have r: "r < clock s" by force
    from mem pb have full: "arrivals s = arena_num + 1" by force
    from filter_update_length [OF worker_stamp(2), of arrived "Timed (Some r) (clock s)"] worker_stamp(3)
    have f: "length (filter arrived ((procs s)[i := Timed (Some r) (clock s)])) = length (filter arrived (procs s))"
      by simp
    have w: "\<forall>w \<in> set ((procs s)[i := Timed (Some r) (clock s)]). well_timed (Suc (clock s)) w"
      using wt' r by (auto dest: in_set_update)
    have "spawned_upto arena_num ((procs s)[i := Timed (Some r) (clock s)]) (driver_at s)"
      using sp worker_stamp(2,3) by (intro spawned_upto_update) simp_all
    with worker_stamp len cnt f w dn full show ?thesis
      by (simp add: st_inv_def)
  next
    case (worker_stamp_no_barrier i)
    then show ?thesis by simp
  qed
qed

lemma st_reachable_inv: "st_reachable Arenas arena_num s \<Longrightarrow> st_inv arena_num s"
  by (induction rule: st_reachable.induct) (auto intro: st_inv_init st_inv_step)

lemma well_timed_stamped: "well_timed now w \<Longrightarrow> stamped_after_release w"
  by (cases "(now, w)" rule: well_timed.cases) auto

lemma timed_past_barrier: "timed w \<Longrightarrow> past_barrier w"
  by (cases w) auto

lemma st_inv_rendezvous:
  assumes inv: "st_inv arena_num s"
  shows "rendezvous_before_timing arena_num s"
proof -
  from inv have len: "length (procs s) = arena_num"
    and cnt: "arrivals s = length (filter arrived (procs s)) + (if driver_arrived (driver_at s) then 1 else 0)"
    and wt: "\<forall>w \<in> set (procs s). well_timed (clock s) w"
    and pb: "(\<exists>w \<in> set (procs s). past_barrier w) \<longrightarrow> arrivals s = arena_num + 1"
    unfolding st_inv_def by blast+
  have le: "length (filter arrived (procs s)) \<le> arena_num"
    using length_filter_le [of arrived "procs s"] len by simp
  with cnt have bound: "arrivals s \<le> arena_num + 1" by simp
  from wt have stamped: "list_all stamped_after_release (procs s)"
    by (auto simp: list_all_iff intro: well_timed_stamped)
  have full: "arrivals s = arena_num + 1 \<and> list_all arrived (procs s) \<and> driver_arrived (driver_at s)"
    if "list_ex timed (procs s)"
  proof -
    from that pb have a: "arrivals s = arena_num + 1"
      by (auto simp: list_ex_iff dest: timed_past_barrier)
    with cnt le have d: "driver_arrived (driver_at s)"
      by (simp split: if_splits)
    with a cnt len have "length (filter arrived (procs s)) = length (procs s)" by simp
    then have "list_all arrived (procs s)" by (rule filter_all)
    with a d show ?thesis by simp
  qed
  from full have "if list_ex timed (procs s)
      then arrivals s = arena_num + 1 \<and> list_all arrived (procs s) \<and> driver_arrived (driver_at s)
      else True"
    by simp
  with cnt bound stamped show ?thesis
    unfolding rendezvous_before_timing_def by blast
qed


text \<open>
  Claim C5 says that in every variant a barrier of \<open>arena_num + 1\<close> parties stands between
  the initialisation and the timed loops. The two thread variants have no barrier: with
  two workers, the first can take its start timestamp while the driver has not yet started
  the second, and nobody has called \<open>wait\<close>.
\<close>

theorem barrier_counterexample:
  "st_reachable AsyncRunner 2
     \<lparr>clock = 2, driver_at = Spawning 1, procs = [Timed None 1, NotStarted], arrivals = 0\<rparr> \<and>
   st_reachable LikeMlperf 2
     \<lparr>clock = 2, driver_at = Spawning 1, procs = [Timed None 1, NotStarted], arrivals = 0\<rparr> \<and>
   \<not> rendezvous_before_timing 2
     \<lparr>clock = 2, driver_at = Spawning 1, procs = [Timed None 1, NotStarted], arrivals = 0\<rparr>"
proof -
  let ?s1 = "\<lparr>clock = 1, driver_at = Spawning 1, procs = [Initializing, NotStarted], arrivals = 0\<rparr>"
  let ?s2 = "\<lparr>clock = 2, driver_at = Spawning 1, procs = [Timed None 1, NotStarted], arrivals = 0\<rparr>"
  have reach: "st_reachable v 2 ?s2" if v: "\<not> has_barrier v" for v
  proof -
    have "st_step v 2 (st_init 2)
        ((st_init 2)\<lparr>clock := Suc (clock (st_init 2)), driver_at := Spawning (Suc 0),
           procs := (procs (st_init 2))[0 := Initializing]\<rparr>)"
      by (rule st_step.spawn) (simp_all add: st_init_def)
    then have "st_step v 2 (st_init 2) ?s1"
      by (simp add: st_init_def numeral_2_eq_2)
    with st_start have r1: "st_reachable v 2 ?s1" by (rule st_next)
    have "st_step v 2 ?s1
        (?s1\<lparr>clock := Suc (clock ?s1), procs := (procs ?s1)[0 := Timed None (clock ?s1)]\<rparr>)"
      by (rule st_step.worker_stamp_no_barrier) (simp_all add: v)
    then have "st_step v 2 ?s1 ?s2" by (simp add: numeral_2_eq_2)
    with r1 show ?thesis by (rule st_next)
  qed
  have "\<not> rendezvous_before_timing 2 ?s2"
    by (simp add: rendezvous_before_timing_def)
  with reach [of AsyncRunner] reach [of LikeMlperf] show ?thesis by simp
qed

text \<open>
  Claim C5 as amended: in \<open>run_within_arenas\<close>, the one variant with a barrier, the
  barrier of \<open>arena_num + 1\<close> parties is waited on once by every participant that has
  arrived, no worker takes its start timestamp before all \<open>arena_num + 1\<close> participants
  have called \<open>wait\<close>, and every start timestamp is taken after the worker's release.
\<close>

theorem barrier_before_timing:
  assumes "st_reachable Arenas arena_num s"
  shows "rendezvous_before_timing arena_num s"
  using assms by (intro st_inv_rendezvous st_reachable_inv)

text \<open>
  One worker: it is started, initialises and waits; the driver waits; the worker is
  released at time 3 and takes its timestamp at time 4.
\<close>

theorem barrier_before_timing_witness:
  "st_reachable Arenas 1
     \<lparr>clock = 5, driver_at = DriverAtBarrier, procs = [Timed (Some 3) 4], arrivals = 2\<rparr> \<and>
   rendezvous_before_timing 1
     \<lparr>clock = 5, driver_at = DriverAtBarrier, procs = [Timed (Some 3) 4], arrivals = 2\<rparr>"
proof -
  let ?s1 = "\<lparr>clock = 1, driver_at = Spawning 1, procs = [Initializing], arrivals = 0\<rparr>"
  let ?s2 = "\<lparr>clock = 2, driver_at = Spawning 1, procs = [AtBarrier], arrivals = 1\<rparr>"
  let ?s3 = "\<lparr>clock = 3, driver_at = DriverAtBarrier, procs = [AtBarrier], arrivals = 2\<rparr>"
  let ?s4 = "\<lparr>clock = 4, driver_at = DriverAtBarrier, procs = [Released 3], arrivals = 2\<rparr>"
  let ?s5 = "\<lparr>clock = 5, driver_at = DriverAtBarrier, procs = [Timed (Some 3) 4], arrivals = 2\<rparr>"
  have "st_step Arenas 1 (st_init 1)
      ((st_init 1)\<lparr>clock := Suc (clock (st_init 1)), driver_at := Spawning (Suc 0),
         procs := (procs (st_init 1))[0 := Initializing]\<rparr>)"
    by (rule st_step.spawn) (simp_all add: st_init_def)
  then have "st_step Arenas 1 (st_init 1) ?s1" by (simp add: st_init_def)
  with st_start have r1: "st_reachable Arenas 1 ?s1" by (rule st_next)
  have "st_step Arenas 1 ?s1
      (?s1\<lparr>clock := Suc (clock ?s1), procs := (procs ?s1)[0 := AtBarrier],
         arrivals := Suc (arrivals ?s1)\<rparr>)"
    by (rule st_step.worker_wait) simp_all
  then have "st_step Arenas 1 ?s1 ?s2" by (simp add: numeral_2_eq_2)
  with r1 have r2: "st_reachable Arenas 1 ?s2" by (rule st_next)
  have "st_step Arenas 1 ?s2
      (?s2\<lparr>clock := Suc (clock ?s2), driver_at := DriverAtBarrier,
         arrivals := Suc (arrivals ?s2)\<rparr>)"
    by (rule st_step.driver_wait) simp_all
  then have "st_step Arenas 1 ?s2 ?s3" by (simp add: numeral_2_eq_2 numeral_3_eq_3)
  with r2 have r3: "st_reachable Arenas 1 ?s3" by (rule st_next)
  have "st_step Arenas 1 ?s3
      (?s3\<lparr>clock := Suc (clock ?s3), procs := (procs ?s3)[0 := Released (clock ?s3)]\<rparr>)"
    by (rule st_step.worker_release) simp_all
  then have "st_step Arenas 1 ?s3 ?s4" by simp
  with r3 have r4: "st_reachable Arenas 1 ?s4" by (rule st_next)
  have "st_step Arenas 1 ?s4
      (?s4\<lparr>clock := Suc (clock ?s4), procs := (procs ?s4)[0 := Timed (Some 3) (clock ?s4)]\<rparr>)"
    by (rule st_step.worker_stamp) simp_all
  then have "st_step Arenas 1 ?s4 ?s5" by simp
  with r4 have r5: "st_reachable Arenas 1 ?s5" by (rule st_next)
  from barrier_before_timing [OF r5] r5 show ?thesis by simp
qed

end
